theory Spec2Isabelle
  imports Complex_Main "HOL-Library.Log_Nat"
begin

section \<open>Static router-tree resolver of \<^verbatim>\<open>contract_coverage.py\<close>\<close>

text \<open>
  Python strings are modelled as \<^typ>\<open>string\<close> (lists of characters); the program only
  ever compares characters with ASCII delimiters. The two delimiters that cannot be
  written inside a HOL string literal get a name.
\<close>

abbreviation DQ :: char where
  "DQ \<equiv> CHR 0x22"

abbreviation BSL :: char where
  "BSL \<equiv> CHR 0x5C"

subsection \<open>Argument splitting: \<^verbatim>\<open>_split_top_level_comma\<close>\<close>

text \<open>
  The \<^verbatim>\<open>for i, ch in enumerate(args)\<close> loop: \<open>i\<close> is the index of \<open>ch\<close>, the last
  argument is the part of \<open>args\<close> still to be read. Every \<^verbatim>\<open>continue\<close> is a
  recursive call, the \<^verbatim>\<open>return\<close> inside the loop ends it, and running off the end
  of the string is \<^verbatim>\<open>return None\<close>.
\<close>

fun split_loop :: "string \<Rightarrow> nat \<Rightarrow> int \<Rightarrow> bool \<Rightarrow> bool \<Rightarrow> string \<Rightarrow> (string \<times> string) option" where
  "split_loop args i depth in_str esc [] = None"
| "split_loop args i depth in_str esc (ch # rest) =
     (if in_str then
        (if esc then split_loop args (i + 1) depth in_str False rest
         else if ch = BSL then split_loop args (i + 1) depth in_str True rest
         else if ch = DQ then split_loop args (i + 1) depth False esc rest
         else split_loop args (i + 1) depth in_str esc rest)
      else if ch = DQ then split_loop args (i + 1) depth True esc rest
      else if ch = CHR ''('' then split_loop args (i + 1) (depth + 1) in_str esc rest
      else if ch = CHR '')'' then split_loop args (i + 1) (max 0 (depth - 1)) in_str esc rest
      else if ch = CHR '','' \<and> depth = 0 then Some (take i args, drop (i + 1) args)
      else split_loop args (i + 1) depth in_str esc rest)"

definition split_top_level_comma :: "string \<Rightarrow> (string \<times> string) option" where
  "split_top_level_comma args = split_loop args 0 0 False False args"

text \<open>
  The property the splitter is meant to have, stated without the loop: the lexical
  context in front of a position is the number of parentheses opened and not yet closed
  (a closing parenthesis with nothing open closes nothing) together with the position
  relative to double-quoted literals, in which a backslash makes the next character
  literal.
\<close>

datatype quote_ctx = Outside | Inside | Escaped

fun lex_step :: "nat \<times> quote_ctx \<Rightarrow> char \<Rightarrow> nat \<times> quote_ctx" where
  "lex_step (d, Escaped) c = (d, Inside)"
| "lex_step (d, Inside) c =
     (if c = BSL then (d, Escaped) else if c = DQ then (d, Outside) else (d, Inside))"
| "lex_step (d, Outside) c =
     (if c = DQ then (d, Inside)
      else if c = CHR ''('' then (Suc d, Outside)
      else if c = CHR '')'' then (d - 1, Outside)
      else (d, Outside))"

definition lex_ctx :: "string \<Rightarrow> nat \<times> quote_ctx" where
  "lex_ctx s = foldl lex_step (0, Outside) s"

definition top_level_comma :: "string \<Rightarrow> nat \<Rightarrow> bool" where
  "top_level_comma args i \<longleftrightarrow>
     i < length args \<and> args ! i = CHR '','' \<and> lex_ctx (take i args) = (0, Outside)"

subsection \<open>Path composition: \<^verbatim>\<open>_join_paths\<close>\<close>

definition startswith_slash :: "string \<Rightarrow> bool" where
  "startswith_slash s = (case s of [] \<Rightarrow> False | c # _ \<Rightarrow> c = CHR ''/'')"

definition endswith_slash :: "string \<Rightarrow> bool" where
  "endswith_slash s = (s \<noteq> [] \<and> last s = CHR ''/'')"

text \<open>\<^verbatim>\<open>s.rstrip("/")\<close> removes every trailing slash.\<close>

definition rstrip_slash :: "string \<Rightarrow> string" where
  "rstrip_slash s = rev (dropWhile (\<lambda>c. c = CHR ''/'') (rev s))"

definition join_paths :: "string \<Rightarrow> string \<Rightarrow> string" where
  "join_paths prefix path =
     (if prefix = '''' then
        (if path = '''' then ''/''
         else
           let path1 = (if \<not> startswith_slash path then ''/'' @ path else path) in
           if path1 \<noteq> ''/'' \<and> endswith_slash path1 then rstrip_slash path1 else path1)
      else
        let prefix1 = (if \<not> startswith_slash prefix then ''/'' @ prefix else prefix);
            prefix2 = (if prefix1 \<noteq> ''/'' \<and> endswith_slash prefix1 then butlast prefix1 else prefix1)
        in
        if path = ''/'' then prefix2
        else
          let path1 = (if \<not> startswith_slash path then ''/'' @ path else path) in
          if prefix2 = ''/'' then path1 else prefix2 @ path1)"

text \<open>
  Auxiliary notions for reasoning about \<open>join_paths\<close>. A prefix is well formed for
  composition when it does not end in two slashes; a leaf path is well formed when it is
  non-empty and carries no trailing slash, the root \<open>''/''\<close> excepted.
\<close>

definition at_most_one_trailing_slash :: "string \<Rightarrow> bool" where
  "at_most_one_trailing_slash p \<longleftrightarrow> \<not> (endswith_slash p \<and> endswith_slash (butlast p))"

definition normal_leaf :: "string \<Rightarrow> bool" where
  "normal_leaf l \<longleftrightarrow> l \<noteq> [] \<and> (l = ''/'' \<or> \<not> endswith_slash l)"

definition lead_slash :: "string \<Rightarrow> string" where
  "lead_slash s = (if \<not> startswith_slash s then ''/'' @ s else s)"

definition trim_slash :: "string \<Rightarrow> string" where
  "trim_slash s = (if s \<noteq> ''/'' \<and> endswith_slash s then butlast s else s)"

definition unroot :: "string \<Rightarrow> string" where
  "unroot s = (if s = ''/'' then [] else s)"

definition reroot :: "string \<Rightarrow> string" where
  "reroot s = (if s = [] then ''/'' else s)"

definition prefix_part :: "string \<Rightarrow> string" where
  "prefix_part p = (if p = [] then [] else unroot (trim_slash (lead_slash p)))"

definition leaf_part :: "string \<Rightarrow> string" where
  "leaf_part l = unroot (lead_slash l)"

subsection \<open>Call scanning: \<^verbatim>\<open>_extract_two_arg_calls\<close>\<close>

text \<open>
  \<^verbatim>\<open>text.find(needle, i)\<close>: the least index \<open>k \<ge> i\<close> at which \<open>needle\<close> occurs in
  \<open>text\<close>, \<open>None\<close> for Python's \<open>-1\<close>.
\<close>

definition str_find :: "string \<Rightarrow> string \<Rightarrow> nat \<Rightarrow> nat option" where
  "str_find text needle i =
     find (\<lambda>k. take (length needle) (drop k text) = needle) [i..<Suc (length text)]"

text \<open>
  \<^verbatim>\<open>s[start:stop]\<close> for a start that is not negative; a negative stop counts from the
  end of the string.
\<close>

definition py_slice :: "string \<Rightarrow> nat \<Rightarrow> int \<Rightarrow> string" where
  "py_slice s start stop =
     (let n = int (length s);
          e = (if stop < 0 then max 0 (n + stop) else min stop n)
      in take (nat e - start) (drop start s))"

text \<open>
  The inner loop \<^verbatim>\<open>while j < len(text) and depth > 0\<close>; the last argument is
  \<open>text[j:]\<close>, the result is the value of \<open>j\<close> when the loop ends.
\<close>

fun scan_call :: "nat \<Rightarrow> int \<Rightarrow> bool \<Rightarrow> bool \<Rightarrow> string \<Rightarrow> nat" where
  "scan_call j depth in_str esc [] = j"
| "scan_call j depth in_str esc (ch # rest) =
     (if depth > 0 then
        (if in_str then
           (if esc then scan_call (j + 1) depth in_str False rest
            else if ch = BSL then scan_call (j + 1) depth in_str True rest
            else if ch = DQ then scan_call (j + 1) depth False esc rest
            else scan_call (j + 1) depth in_str esc rest)
         else
           (if ch = DQ then scan_call (j + 1) depth True esc rest
            else if ch = CHR ''('' then scan_call (j + 1) (depth + 1) in_str esc rest
            else if ch = CHR '')'' then scan_call (j + 1) (depth - 1) in_str esc rest
            else scan_call (j + 1) depth in_str esc rest))
      else j)"

text \<open>
  The outer loop \<^verbatim>\<open>while True\<close>. It leaves through \<^verbatim>\<open>break\<close> only, so the model
  is a partial function: \<open>None\<close> stands for a run that does not return.
\<close>

partial_function (option) extract_loop ::
  "string \<Rightarrow> string \<Rightarrow> nat \<Rightarrow> (string \<times> string) list \<Rightarrow> (string \<times> string) list option" where
  "extract_loop text needle i calls =
     (case str_find text needle i of
        None \<Rightarrow> Some calls
      | Some idx \<Rightarrow>
          (let start = idx + length needle;
               j = scan_call start 1 False False (drop start text);
               args = py_slice text start (int j - 1);
               calls' = (case split_top_level_comma args of
                           Some parts \<Rightarrow> calls @ [parts]
                         | None \<Rightarrow> calls)
           in extract_loop text needle j calls'))"

definition extract_two_arg_calls :: "string \<Rightarrow> string \<Rightarrow> (string \<times> string) list option" where
  "extract_two_arg_calls text needle = extract_loop text needle 0 []"

subsection \<open>Module resolution: \<^verbatim>\<open>_resolve_module_file\<close>\<close>

text \<open>
  A \<^verbatim>\<open>Path\<close> is the list of its components below the file-system root, so that
  \<^verbatim>\<open>p.parent\<close> drops the last component (the root is its own parent) and
  \<^verbatim>\<open>p.joinpath(*parts)\<close> appends components. Module segments are used as
  components as they are; the references the extractor produces are identifiers
  separated by \<open>::\<close>.
\<close>

type_synonym fpath = "string list"

definition parent :: "fpath \<Rightarrow> fpath" where
  "parent p = butlast p"

text \<open>
  \<^verbatim>\<open>str.strip()\<close> removes leading and trailing whitespace; these are the whitespace
  characters among the code points below 256.
\<close>

definition is_space :: "char \<Rightarrow> bool" where
  "is_space c =
     (let n = (of_char c :: nat) in (9 \<le> n \<and> n \<le> 13) \<or> (28 \<le> n \<and> n \<le> 32) \<or> n = 133 \<or> n = 160)"

definition py_strip :: "string \<Rightarrow> string" where
  "py_strip s = rev (dropWhile is_space (rev (dropWhile is_space s)))"

text \<open>
  \<^verbatim>\<open>s.split("::")\<close>: the pieces between the occurrences of the separator, found from
  left to right without overlap; \<open>cur\<close> is the piece being read.
\<close>

fun split_colons :: "string \<Rightarrow> string \<Rightarrow> string list" where
  "split_colons cur [] = [cur]"
| "split_colons cur [c] = [cur @ [c]]"
| "split_colons cur (c # d # s) =
     (if c = CHR '':'' \<and> d = CHR '':'' then cur # split_colons [] s
      else split_colons (cur @ [c]) (d # s))"

text \<open>\<^verbatim>\<open>[part for part in module.strip().split("::") if part]\<close>\<close>

definition module_parts :: "string \<Rightarrow> string list" where
  "module_parts module_ref = filter (\<lambda>part. part \<noteq> []) (split_colons [] (py_strip module_ref))"

text \<open>The loop \<^verbatim>\<open>while parts and parts[0] == "super"\<close>.\<close>

fun strip_super :: "string list \<Rightarrow> fpath \<Rightarrow> string list \<times> fpath" where
  "strip_super [] base_dir = ([], base_dir)"
| "strip_super (p # ps) base_dir =
     (if p = ''super'' then strip_super ps (parent base_dir) else (p # ps, base_dir))"

definition add_candidates :: "string list \<Rightarrow> fpath \<Rightarrow> fpath list" where
  "add_candidates parts root_dir =
     [root_dir @ butlast parts @ [last parts @ ''.rs''], root_dir @ parts @ [''mod.rs'']]"

text \<open>
  The part of the resolver after the anchor directory is chosen: the candidate files
  in the order in which they are probed, or \<open>None\<close> when the resolver returns
  unresolved before it builds any candidate.
\<close>

definition candidates_from :: "fpath \<Rightarrow> fpath \<Rightarrow> string list \<Rightarrow> fpath list option" where
  "candidates_from routes_root base_dir parts =
     (case strip_super parts base_dir of
        (parts1, base_dir1) \<Rightarrow>
          (let parts2 = dropWhile (\<lambda>p. p = ''self'') parts1 in
           if parts2 = [] then None
           else Some (add_candidates parts2 base_dir1
                      @ (if base_dir1 \<noteq> routes_root then add_candidates parts2 routes_root else []))))"

definition module_candidates :: "fpath \<Rightarrow> fpath \<Rightarrow> string \<Rightarrow> fpath list option" where
  "module_candidates routes_root current_file module_ref =
     (if py_strip module_ref = [] then None
      else
        let base_dir = parent current_file;
            parts = module_parts module_ref
        in
        if take 2 parts = [''crate'', ''routes''] then candidates_from routes_root routes_root (drop 2 parts)
        else if parts \<noteq> [] \<and> hd parts = ''crate'' then None
        else candidates_from routes_root base_dir parts)"

text \<open>
  The disk is consulted through \<^verbatim>\<open>candidate.exists()\<close> only, on the candidates in
  order.
\<close>

definition resolve_module_file :: "(fpath \<Rightarrow> bool) \<Rightarrow> fpath \<Rightarrow> fpath \<Rightarrow> string \<Rightarrow> fpath option" where
  "resolve_module_file exists_on_disk routes_root current_file module_ref =
     (case module_candidates routes_root current_file module_ref of
        None \<Rightarrow> None
      | Some candidates \<Rightarrow> find exists_on_disk candidates)"

subsection \<open>The router tree walker: \<^verbatim>\<open>walk\<close>\<close>

datatype Endpoint = Endpoint (ep_method: string) (ep_path: string)

datatype NestCall = NestCall (nest_prefix: string) (nest_module: string)

record ParsedRouterFile =
  endpoints :: "Endpoint set"
  nests :: "NestCall list"

text \<open>
  The source tree is the list of the files that exist, each with the value that
  \<^verbatim>\<open>parse_file\<close> returns for it (the parse of its text and, for the root file, the
  health delegations appended to it; the cache makes every later call return the same
  value). Reading a file that does not exist raises.
\<close>

type_synonym disk = "(fpath \<times> ParsedRouterFile) list"

datatype walk_error = FileNotFoundError fpath

definition on_disk :: "disk \<Rightarrow> fpath \<Rightarrow> bool" where
  "on_disk d p = (map_of d p \<noteq> None)"

text \<open>
  The measure under which the walk terminates: the number of files on the disk that are
  not on the stack, then the number of delegations still to be visited.
\<close>

definition walk_measure ::
  "(disk \<times> fpath \<times> fpath list \<times> fpath \<times> string)
   + (disk \<times> fpath \<times> fpath list \<times> fpath \<times> string \<times> NestCall list) \<Rightarrow> nat \<times> nat" where
  "walk_measure x =
     (case x of
        Inl (d, routes_root, stack, path, prefix) \<Rightarrow> (card (fst ` set d - set stack), 0)
      | Inr (d, routes_root, stack, path, prefix, ns) \<Rightarrow>
          (card (fst ` set d - set stack), Suc (length ns)))"

text \<open>
  \<open>walk\<close> and its loop over the delegations of a file. The list \<open>stack\<close> is the value of
  the shared \<^verbatim>\<open>stack\<close> when the call is entered: every \<^verbatim>\<open>stack.append(path)\<close> is
  undone by the \<^verbatim>\<open>stack.pop()\<close> of the same call, so the loop over the delegations
  of \<open>path\<close> runs each nested call on the stack of its caller extended by \<open>path\<close>.
  An exception of a nested call ends the walk. The depth of the interpreter's call
  stack is not bounded in the model.
\<close>

function walk :: "disk \<Rightarrow> fpath \<Rightarrow> fpath list \<Rightarrow> fpath \<Rightarrow> string \<Rightarrow> walk_error + Endpoint set"
  and walk_nests :: "disk \<Rightarrow> fpath \<Rightarrow> fpath list \<Rightarrow> fpath \<Rightarrow> string \<Rightarrow> NestCall list \<Rightarrow> walk_error + Endpoint set"
  where
  "walk d routes_root stack path prefix =
     (if path \<in> set stack then Inr {}
      else
        (case map_of d path of
           None \<Rightarrow> Inl (FileNotFoundError path)
         | Some parsed \<Rightarrow>
             (case walk_nests d routes_root (stack @ [path]) path prefix (nests parsed) of
                Inl e \<Rightarrow> Inl e
              | Inr nested \<Rightarrow>
                  Inr ((\<lambda>ep. Endpoint (ep_method ep) (join_paths prefix (ep_path ep))) ` endpoints parsed
                       \<union> nested))))"
| "walk_nests d routes_root stack path prefix [] = Inr {}"
| "walk_nests d routes_root stack path prefix (nest # rest) =
     (let child_prefix = join_paths prefix (nest_prefix nest) in
      case resolve_module_file (on_disk d) routes_root path (nest_module nest) of
        None \<Rightarrow> walk_nests d routes_root stack path prefix rest
      | Some nested_file \<Rightarrow>
          (case walk d routes_root stack nested_file child_prefix of
             Inl e \<Rightarrow> Inl e
           | Inr found \<Rightarrow>
               (case walk_nests d routes_root stack path prefix rest of
                  Inl e \<Rightarrow> Inl e
                | Inr others \<Rightarrow> Inr (found \<union> others))))"
  by pat_completeness auto
termination
proof (relation "inv_image (less_than <*lex*> less_than) walk_measure")
  show "wf (inv_image (less_than <*lex*> less_than) walk_measure)"
    by (intro wf_inv_image wf_lex_prod wf_less_than)
next
  fix d :: disk and routes_root :: fpath and stack :: "fpath list" and path :: fpath
    and prefix :: string and parsed :: ParsedRouterFile
  assume "path \<notin> set stack" "map_of d path = Some parsed"
  then have "path \<in> fst ` set d - set stack"
    by (auto dest: map_of_SomeD intro: rev_image_eqI)
  then have "card (fst ` set d - set (stack @ [path])) < card (fst ` set d - set stack)"
    by (intro psubset_card_mono) auto
  then show "(Inr (d, routes_root, stack @ [path], path, prefix, nests parsed),
              Inl (d, routes_root, stack, path, prefix))
          \<in> inv_image (less_than <*lex*> less_than) walk_measure"
    by (simp add: walk_measure_def)
qed (simp_all add: walk_measure_def)

declare walk.simps(1) [simp del]

text \<open>
  The endpoints that a walk is meant to collect, stated without the recursion over
  lists: an endpoint declared by a file that is entered, or one collected from the
  target of a resolved delegation of that file, with the file itself on the active path.
\<close>

inductive walk_yields :: "disk \<Rightarrow> fpath \<Rightarrow> fpath list \<Rightarrow> fpath \<Rightarrow> string \<Rightarrow> Endpoint \<Rightarrow> bool"
  for d :: disk and routes_root :: fpath where
  declared:
    "path \<notin> set stack \<Longrightarrow> map_of d path = Some parsed \<Longrightarrow> ep \<in> endpoints parsed \<Longrightarrow>
     walk_yields d routes_root stack path prefix
       (Endpoint (ep_method ep) (join_paths prefix (ep_path ep)))"
| delegated:
    "path \<notin> set stack \<Longrightarrow> map_of d path = Some parsed \<Longrightarrow> nest \<in> set (nests parsed) \<Longrightarrow>
     resolve_module_file (on_disk d) routes_root path (nest_module nest) = Some nested_file \<Longrightarrow>
     walk_yields d routes_root (stack @ [path]) nested_file (join_paths prefix (nest_prefix nest)) ep \<Longrightarrow>
     walk_yields d routes_root stack path prefix ep"

text \<open>The endpoints collected from the resolved delegations of a list.\<close>

definition nests_yield ::
  "disk \<Rightarrow> fpath \<Rightarrow> fpath list \<Rightarrow> fpath \<Rightarrow> string \<Rightarrow> NestCall list \<Rightarrow> Endpoint set" where
  "nests_yield d routes_root stack path prefix ns =
     {ep. \<exists>nest nested_file. nest \<in> set ns
        \<and> resolve_module_file (on_disk d) routes_root path (nest_module nest) = Some nested_file
        \<and> walk_yields d routes_root stack nested_file (join_paths prefix (nest_prefix nest)) ep}"

subsection \<open>Coverage: \<^verbatim>\<open>_percent\<close> and its use in \<^verbatim>\<open>main\<close>\<close>

text \<open>
  A Python float is an IEEE 754 double. Its finite values are modelled by the real
  numbers they denote, and every operation rounds its exact result to the nearest
  double, ties to the even significand: a double is \<open>m \<times> 2\<^sup>e\<close> with \<open>\<bar>m\<bar> < 2\<^sup>5\<^sup>3\<close> and
  \<open>e \<ge> -1074\<close>, so the exponent of the rounding is 52 below the binary exponent of the
  exact value, and at least \<open>-1074\<close> (the subnormal numbers).
\<close>

definition round_half_even :: "real \<Rightarrow> int" where
  "round_half_even y =
     (let f = \<lfloor>y\<rfloor>; r = y - of_int f in
      if r < 1 / 2 then f else if 1 / 2 < r then f + 1 else if even f then f else f + 1)"

text \<open>The binary exponent \<open>\<lfloor>log\<^sub>2 x\<rfloor>\<close> of a positive number.\<close>

definition floor_log2 :: "real \<Rightarrow> int" where
  "floor_log2 x = (if 1 \<le> x then bitlen \<lfloor>x\<rfloor> - 1 else - bitlen (\<lceil>1 / x\<rceil> - 1))"

definition round_double :: "real \<Rightarrow> real" where
  "round_double x =
     (if x = 0 then 0
      else
        let e = max (floor_log2 \<bar>x\<bar> - 52) (- 1074) in
        of_int (round_half_even (x / 2 powi e)) * 2 powi e)"

text \<open>
  Beside the finite values there are the negative zero and the two infinities. A result
  whose rounding reaches \<open>2\<^sup>1\<^sup>0\<^sup>2\<^sup>4\<close> is out of range.
\<close>

datatype pyfloat = Finite real | NegZero | PosInf | NegInf

datatype py_error = ZeroDivisionError | OverflowError

text \<open>
  \<^verbatim>\<open>n / d\<close> on integers: the exact quotient, correctly rounded. An out-of-range
  result raises \<^verbatim>\<open>OverflowError\<close>; a zero result is negative when the exact quotient
  is negative or when zero is divided by a negative number.
\<close>

definition int_truediv :: "int \<Rightarrow> int \<Rightarrow> py_error + pyfloat" where
  "int_truediv n d =
     (if d = 0 then Inl ZeroDivisionError
      else
        let q = of_int n / of_int d; r = round_double q in
        if 2 ^ 1024 \<le> \<bar>r\<bar> then Inl OverflowError
        else if r = 0 \<and> (q < 0 \<or> (n = 0 \<and> d < 0)) then Inr NegZero
        else Inr (Finite r))"

text \<open>
  \<^verbatim>\<open>x * 100.0\<close>: the literal is a double; an out-of-range product is an infinity.
\<close>

definition float_mul_100 :: "pyfloat \<Rightarrow> pyfloat" where
  "float_mul_100 x =
     (case x of
        Finite a \<Rightarrow>
          (let r = round_double (a * 100) in
           if 2 ^ 1024 \<le> \<bar>r\<bar> then (if 0 < a then PosInf else NegInf)
           else if r = 0 \<and> a < 0 then NegZero
           else Finite r)
      | NegZero \<Rightarrow> NegZero
      | PosInf \<Rightarrow> PosInf
      | NegInf \<Rightarrow> NegInf)"

definition percent :: "int \<Rightarrow> int \<Rightarrow> py_error + pyfloat" where
  "percent numerator denominator =
     (if denominator = 0 then Inr (Finite 100)
      else
        (case int_truediv numerator denominator of
           Inl e \<Rightarrow> Inl e
         | Inr x \<Rightarrow> Inr (float_mul_100 x)))"

text \<open>
  \<^verbatim>\<open>covered = contract & rust\<close> and
  \<^verbatim>\<open>coverage = _percent(len(covered), len(contract))\<close>; the sets of the program are
  finite.
\<close>

definition coverage :: "Endpoint set \<Rightarrow> Endpoint set \<Rightarrow> py_error + pyfloat" where
  "coverage contract rust =
     (let covered = contract \<inter> rust in percent (int (card covered)) (int (card contract)))"

section \<open>Properties of the path composer\<close>

lemma startswith_slash_simps [simp]:
  "startswith_slash [] = False" "startswith_slash (c # s) = (c = CHR ''/'')"
  by (simp_all add: startswith_slash_def)

lemma endswith_slash_simps [simp]:
  "endswith_slash [] = False" "endswith_slash (s @ [c]) = (c = CHR ''/'')"
  "endswith_slash [c] = (c = CHR ''/'')"
  "s \<noteq> [] \<Longrightarrow> endswith_slash (c # s) = endswith_slash s"
  "s \<noteq> [] \<Longrightarrow> endswith_slash (t @ s) = endswith_slash s"
  by (simp_all add: endswith_slash_def)

lemma join_nonempty:
  "p \<noteq> [] \<Longrightarrow> join_paths p l =
     (if l = ''/'' then trim_slash (lead_slash p)
      else if trim_slash (lead_slash p) = ''/'' then lead_slash l
      else trim_slash (lead_slash p) @ lead_slash l)"
  by (simp add: join_paths_def lead_slash_def trim_slash_def Let_def)

lemma join_empty:
  "join_paths [] l =
     (if l = [] then ''/''
      else if lead_slash l \<noteq> ''/'' \<and> endswith_slash (lead_slash l) then rstrip_slash (lead_slash l)
      else lead_slash l)"
  by (simp add: join_paths_def lead_slash_def Let_def)

lemma rstrip_single:
  assumes "at_most_one_trailing_slash s" "endswith_slash s"
  shows "rstrip_slash s = butlast s"
proof (cases s rule: rev_cases)
  case Nil
  with assms show ?thesis by simp
next
  case (snoc ys y)
  with assms show ?thesis
    by (cases ys rule: rev_cases)
       (auto simp: at_most_one_trailing_slash_def rstrip_slash_def butlast_append)
qed

lemma lead_slash_simps [simp]:
  "lead_slash [] = ''/''"
  "lead_slash (c # s) = (if c = CHR ''/'' then c # s else CHR ''/'' # c # s)"
  by (auto simp: lead_slash_def)

lemma lead_slash_nonempty [simp]: "lead_slash s \<noteq> []"
  by (cases s) auto

lemma lead_slash_starts [simp]: "startswith_slash (lead_slash s)"
  by (cases s) auto

lemma lead_slash_id: "startswith_slash s \<Longrightarrow> lead_slash s = s"
  by (cases s) auto

lemma lead_slash_idem [simp]: "lead_slash (lead_slash s) = lead_slash s"
  by (simp add: lead_slash_id)

lemma lead_slash_ends: "s \<noteq> [] \<Longrightarrow> endswith_slash (lead_slash s) = endswith_slash s"
  by (cases s) auto

lemma lead_slash_root: "lead_slash s = ''/'' \<longleftrightarrow> s = [] \<or> s = ''/''"
  by (cases s) auto

lemma lead_slash_keeps:
  assumes "at_most_one_trailing_slash s"
  shows "at_most_one_trailing_slash (lead_slash s)"
proof (cases s rule: rev_cases)
  case Nil
  then show ?thesis by (simp add: at_most_one_trailing_slash_def)
next
  case (snoc ys y)
  with assms show ?thesis
    by (cases ys rule: rev_cases)
       (auto simp: at_most_one_trailing_slash_def lead_slash_def butlast_append split: if_splits)
qed

lemma trim_slash_simps [simp]: "trim_slash ''/'' = ''/''" "trim_slash [] = []"
  by (simp_all add: trim_slash_def)

lemma trim_slash_nonempty [simp]: "s \<noteq> [] \<Longrightarrow> trim_slash s \<noteq> []"
  by (cases s rule: rev_cases) (auto simp: trim_slash_def)

lemma trim_slash_starts [simp]:
  assumes "startswith_slash s"
  shows "startswith_slash (trim_slash s)"
proof (cases s rule: rev_cases)
  case Nil
  with assms show ?thesis by simp
next
  case (snoc ys y)
  with assms show ?thesis by (cases ys) (auto simp: trim_slash_def)
qed

lemma trim_slash_no_trail:
  assumes "at_most_one_trailing_slash s"
  shows "trim_slash s = ''/'' \<or> \<not> endswith_slash (trim_slash s)"
proof (cases s rule: rev_cases)
  case Nil
  then show ?thesis by simp
next
  case (snoc ys y)
  with assms show ?thesis
    by (cases ys rule: rev_cases)
       (auto simp: at_most_one_trailing_slash_def trim_slash_def butlast_append split: if_splits)
qed

lemma trim_slash_id: "s = ''/'' \<or> \<not> endswith_slash s \<Longrightarrow> trim_slash s = s"
  by (auto simp: trim_slash_def)

lemma trim_slash_idem: "at_most_one_trailing_slash s \<Longrightarrow> trim_slash (trim_slash s) = trim_slash s"
  using trim_slash_no_trail[of s] by (auto simp: trim_slash_id)

lemma trim_slash_append: "t \<noteq> [] \<Longrightarrow> t \<noteq> ''/'' \<Longrightarrow> trim_slash (s @ t) = s @ trim_slash t"
  by (auto simp: trim_slash_def butlast_append append_eq_Cons_conv)

lemma trim_slash_snoc: "s \<noteq> [] \<Longrightarrow> trim_slash (s @ ''/'') = s"
  by (auto simp: trim_slash_def)

lemma trim_slash_root:
  assumes "at_most_one_trailing_slash s"
  shows "trim_slash s = ''/'' \<longleftrightarrow> s = ''/''"
proof (cases s rule: rev_cases)
  case Nil
  then show ?thesis by simp
next
  case (snoc ys y)
  with assms show ?thesis
    by (cases ys rule: rev_cases)
       (auto simp: at_most_one_trailing_slash_def trim_slash_def butlast_append split: if_splits)
qed

lemma join_leaf: "normal_leaf l \<Longrightarrow> join_paths p l = reroot (prefix_part p @ leaf_part l)"
  by (cases "p = []")
     (auto simp: join_empty join_nonempty normal_leaf_def prefix_part_def leaf_part_def
        reroot_def unroot_def lead_slash_ends lead_slash_root)

lemma prefix_part_nonroot [simp]: "prefix_part p \<noteq> ''/''"
  by (simp add: prefix_part_def unroot_def)

lemma leaf_part_nonroot [simp]: "leaf_part p \<noteq> ''/''"
  by (simp add: leaf_part_def unroot_def)

lemma prefix_part_starts: "prefix_part p \<noteq> [] \<Longrightarrow> startswith_slash (prefix_part p)"
  by (auto simp: prefix_part_def unroot_def split: if_splits)

lemma leaf_part_starts: "leaf_part p \<noteq> [] \<Longrightarrow> startswith_slash (leaf_part p)"
  by (auto simp: leaf_part_def unroot_def split: if_splits)

lemma prefix_part_no_trail: "at_most_one_trailing_slash p \<Longrightarrow> \<not> endswith_slash (prefix_part p)"
  using trim_slash_no_trail[of "lead_slash p"] lead_slash_keeps[of p]
  by (auto simp: prefix_part_def unroot_def)

lemma leaf_part_no_trail: "normal_leaf l \<Longrightarrow> \<not> endswith_slash (leaf_part l)"
  by (auto simp: leaf_part_def unroot_def normal_leaf_def lead_slash_ends)

lemma canonical_append:
  assumes "x \<noteq> ''/''" "y \<noteq> ''/''"
    and "x \<noteq> [] \<Longrightarrow> startswith_slash x" "y \<noteq> [] \<Longrightarrow> startswith_slash y"
    and "\<not> endswith_slash x" "\<not> endswith_slash y"
  shows "x @ y \<noteq> ''/''" "x @ y \<noteq> [] \<Longrightarrow> startswith_slash (x @ y)" "\<not> endswith_slash (x @ y)"
  using assms by (cases x; cases y; auto)+

lemma canonical_fixed:
  assumes "x \<noteq> ''/''" "x \<noteq> [] \<Longrightarrow> startswith_slash x" "\<not> endswith_slash x"
  shows "leaf_part (reroot x) = x" "prefix_part (reroot x) = x" "normal_leaf (reroot x)"
  using assms
  by (auto simp: leaf_part_def prefix_part_def reroot_def unroot_def lead_slash_id
      trim_slash_id normal_leaf_def)

lemma join_empty_prefix:
  "at_most_one_trailing_slash q \<Longrightarrow>
     join_paths [] q = (if q = [] then ''/'' else trim_slash (lead_slash q))"
  by (simp add: join_empty rstrip_single lead_slash_keeps trim_slash_def)

lemma prefix_part_join_empty:
  "at_most_one_trailing_slash q \<Longrightarrow> prefix_part (join_paths [] q) = prefix_part q"
  by (simp add: join_empty_prefix prefix_part_def lead_slash_id trim_slash_idem
      lead_slash_keeps unroot_def)

lemma prefix_part_join_nonempty:
  assumes "at_most_one_trailing_slash p" "at_most_one_trailing_slash q" "p \<noteq> []"
  shows "prefix_part (join_paths p q) = prefix_part p @ prefix_part q"
proof -
  let ?P = "trim_slash (lead_slash p)"
  have P: "?P \<noteq> []" "startswith_slash ?P" "trim_slash ?P = ?P" "lead_slash ?P = ?P"
    using assms by (simp_all add: trim_slash_idem lead_slash_keeps lead_slash_id)
  show ?thesis
  proof (cases "q = ''/''")
    case True
    then show ?thesis
      using assms P by (simp add: join_nonempty prefix_part_def unroot_def)
  next
    case q: False
    show ?thesis
    proof (cases "?P = ''/''")
      case True
      then show ?thesis
        using assms q
        by (auto simp: join_nonempty prefix_part_def unroot_def trim_slash_root
            lead_slash_keeps lead_slash_root)
    next
      case False
      have st: "startswith_slash (?P @ lead_slash q)"
        using P by (cases ?P) auto
      show ?thesis
      proof (cases "q = []")
        case True
        then show ?thesis
          using assms P False st
          by (simp add: join_nonempty prefix_part_def unroot_def lead_slash_id trim_slash_snoc)
      next
        case qne: False
        then have "lead_slash q \<noteq> ''/''"
          using q by (simp add: lead_slash_root)
        moreover have "trim_slash (lead_slash q) \<noteq> ''/''"
          using assms calculation by (simp add: trim_slash_root lead_slash_keeps)
        ultimately show ?thesis
          using assms P False st qne q
          by (simp add: join_nonempty prefix_part_def unroot_def lead_slash_id
              trim_slash_append append_eq_Cons_conv)
      qed
    qed
  qed
qed

lemma prefix_part_join:
  "at_most_one_trailing_slash p \<Longrightarrow> at_most_one_trailing_slash q \<Longrightarrow>
     prefix_part (join_paths p q) = prefix_part p @ prefix_part q"
  using prefix_part_join_empty[of q] prefix_part_join_nonempty[of p q]
  by (cases "p = []") (auto simp: prefix_part_def)

text \<open>
  Claim C3. The path composer on the four instances of the specification. The first
  three results are the specified ones. On \<open>(''/api/'', ''/users/'')\<close> the composer returns
  \<open>''/api/users/''\<close>: with a non-empty prefix the trailing slash of the path is kept,
  whereas the branch for the empty prefix removes it.
\<close>

theorem join_paths_spec_instances:
  "join_paths '''' ''/'' = ''/''
   \<and> join_paths '''' ''users'' = ''/users''
   \<and> join_paths ''/api'' ''/'' = ''/api''
   \<and> join_paths ''/api/'' ''/users/'' = ''/api/users/''
   \<and> join_paths '''' ''/users/'' = ''/users''"
  by (simp add: join_paths_def startswith_slash_def endswith_slash_def rstrip_slash_def)

text \<open>
  Claim C2. Composition in two steps differs from composition in one step. For the
  route \<open>''/users/''\<close> of a module nested under \<open>''/v1''\<close> in the root file, the walker
  computes \<open>''/v1/users/''\<close>, and composing the root prefix with the composed path gives
  \<open>''/v1/users''\<close>: the branch for the empty prefix strips the trailing slash of the path and
  the branch for a non-empty prefix keeps it. The same branch keeps the slash that it
  adds to an empty path, keeps a path of two slashes, and strips one trailing slash of a
  prefix only.
\<close>

theorem join_paths_two_level_differs:
  "join_paths '''' (join_paths ''/v1'' ''/users/'') = ''/v1/users''
   \<and> join_paths (join_paths '''' ''/v1'') ''/users/'' = ''/v1/users/''
   \<and> join_paths ''a'' (join_paths '''' '''') = ''/a''
   \<and> join_paths (join_paths ''a'' '''') '''' = ''/a/''
   \<and> join_paths ''a'' (join_paths ''//'' ''x'') = ''/a/x''
   \<and> join_paths (join_paths ''a'' ''//'') ''x'' = ''/a//x''
   \<and> join_paths ''a//'' (join_paths ''/'' ''/'') = ''/a/''
   \<and> join_paths (join_paths ''a//'' ''/'') ''/'' = ''/a''"
  by (simp add: join_paths_def startswith_slash_def endswith_slash_def rstrip_slash_def)

text \<open>
  Where the composer does agree with itself: a sufficient condition, not a necessary
  one. For prefixes that do not end in two slashes and a non-empty leaf path without a
  trailing slash (or equal to \<open>''/''\<close>), the two compositions are the same string.
\<close>

lemma join_paths_assoc_well_formed:
  assumes "at_most_one_trailing_slash p1" "at_most_one_trailing_slash p2" "normal_leaf l"
  shows "join_paths p1 (join_paths p2 l) = join_paths (join_paths p1 p2) l"
proof -
  have c: "prefix_part p2 @ leaf_part l \<noteq> ''/''"
    "prefix_part p2 @ leaf_part l \<noteq> [] \<Longrightarrow> startswith_slash (prefix_part p2 @ leaf_part l)"
    "\<not> endswith_slash (prefix_part p2 @ leaf_part l)"
    using canonical_append[of "prefix_part p2" "leaf_part l"] assms
    by (simp_all add: prefix_part_starts leaf_part_starts prefix_part_no_trail leaf_part_no_trail)
  have "join_paths p1 (join_paths p2 l) = join_paths p1 (reroot (prefix_part p2 @ leaf_part l))"
    using assms by (simp add: join_leaf)
  also have "\<dots> = reroot (prefix_part p1 @ prefix_part p2 @ leaf_part l)"
    using canonical_fixed[OF c] by (simp add: join_leaf)
  also have "\<dots> = join_paths (join_paths p1 p2) l"
    using assms by (simp add: join_leaf prefix_part_join)
  finally show ?thesis .
qed

lemma join_paths_assoc_well_formed_example:
  "join_paths ''/api/'' (join_paths ''v1'' ''/users'') = join_paths (join_paths ''/api/'' ''v1'') ''/users''
   \<and> join_paths (join_paths ''/api/'' ''v1'') ''/users'' = ''/api/v1/users''"
proof -
  have h: "at_most_one_trailing_slash ''/api/''" "at_most_one_trailing_slash ''v1''"
    "normal_leaf ''/users''"
    by (simp_all add: at_most_one_trailing_slash_def normal_leaf_def endswith_slash_def)
  have "join_paths (join_paths ''/api/'' ''v1'') ''/users'' = ''/api/v1/users''"
    by (simp add: join_paths_def startswith_slash_def endswith_slash_def)
  with join_paths_assoc_well_formed[OF h] show ?thesis
    by simp
qed

text \<open>
  Claim C10. With the empty prefix and the path \<open>''//''\<close> the composer returns the empty
  string: the path is neither empty nor \<open>''/''\<close>, it ends in a slash, and
  \<^verbatim>\<open>rstrip("/")\<close> removes every character of it.
\<close>

theorem join_paths_empty_result:
  "join_paths '''' ''//'' = '''' \<and> \<not> startswith_slash (join_paths '''' ''//'')"
  by (simp add: join_paths_def startswith_slash_def endswith_slash_def rstrip_slash_def)

section \<open>Properties of the argument splitter\<close>

text \<open>
  One round of the loop in terms of the lexical context: it returns at a comma in the
  context \<open>(0, Outside)\<close> and otherwise goes on in the context after the character.
\<close>

lemma split_loop_step:
  "split_loop args i (int d) (q \<noteq> Outside) (q = Escaped) (ch # rest) =
     (if ch = CHR '','' \<and> d = 0 \<and> q = Outside then Some (take i args, drop (Suc i) args)
      else split_loop args (Suc i) (int (fst (lex_step (d, q) ch)))
             (snd (lex_step (d, q) ch) \<noteq> Outside) (snd (lex_step (d, q) ch) = Escaped) rest)"
proof -
  have m: "max 0 (int d - 1) = int (d - 1)"
    by (cases d) auto
  show ?thesis
    by (cases q) (auto simp: m add.commute)
qed

lemma lex_ctx_snoc: "lex_ctx (pre @ [ch]) = lex_step (lex_ctx pre) ch"
  by (simp add: lex_ctx_def)

lemma top_level_comma_at:
  "top_level_comma (pre @ ch # rest) (length pre) \<longleftrightarrow> ch = CHR '','' \<and> lex_ctx pre = (0, Outside)"
  by (auto simp: top_level_comma_def)

lemma split_loop_find:
  "split_loop (pre @ rest) (length pre) (int (fst (lex_ctx pre))) (snd (lex_ctx pre) \<noteq> Outside)
       (snd (lex_ctx pre) = Escaped) rest =
     map_option (\<lambda>i. (take i (pre @ rest), drop (Suc i) (pre @ rest)))
       (find (top_level_comma (pre @ rest)) [length pre..<length (pre @ rest)])"
proof (induction rest arbitrary: pre)
  case Nil
  then show ?case by simp
next
  case (Cons ch rest)
  have ih: "split_loop (pre @ ch # rest) (Suc (length pre)) (int (fst (lex_ctx (pre @ [ch]))))
       (snd (lex_ctx (pre @ [ch])) \<noteq> Outside) (snd (lex_ctx (pre @ [ch])) = Escaped) rest =
     map_option (\<lambda>i. (take i (pre @ ch # rest), drop (Suc i) (pre @ ch # rest)))
       (find (top_level_comma (pre @ ch # rest)) [Suc (length pre)..<length (pre @ ch # rest)])"
    using Cons.IH[of "pre @ [ch]"]
    by (simp only: append_assoc append_Cons append_Nil length_append_singleton)
  have u: "[length pre..<length (pre @ ch # rest)] =
      length pre # [Suc (length pre)..<length (pre @ ch # rest)]"
    by (rule upt_conv_Cons) simp
  obtain d q where dq: "lex_ctx pre = (d, q)"
    by (cases "lex_ctx pre")
  show ?case
    unfolding u
    using ih top_level_comma_at[of pre ch rest]
      split_loop_step[of "pre @ ch # rest" "length pre" d q ch rest]
    by (auto simp: dq lex_ctx_snoc)
qed

lemma split_top_level_comma_find:
  "split_top_level_comma args =
     map_option (\<lambda>i. (take i args, drop (Suc i) args))
       (find (top_level_comma args) [0..<length args])"
  using split_loop_find[of "[]" args] by (simp add: split_top_level_comma_def lex_ctx_def)

lemma top_level_comma_take:
  "top_level_comma (take i args) j \<Longrightarrow> j < i \<and> top_level_comma args j"
  by (auto simp: top_level_comma_def min_def split: if_splits)

lemma find_upt_Some:
  "find P [0..<n] = Some i \<longleftrightarrow> i < n \<and> P i \<and> (\<forall>j<i. \<not> P j)"
  by (auto simp: find_Some_iff)

lemma find_upt_None: "find P [0..<n] = None \<longleftrightarrow> (\<forall>i<n. \<not> P i)"
  by (auto simp: find_None_iff)

text \<open>
  Claim C1. The splitter returns the text before and the text after the first comma in
  the context \<open>(0, Outside)\<close>, that is at parenthesis depth zero and outside every
  double-quoted literal, and returns \<open>None\<close> exactly when the argument text has no such
  comma. On the arguments of the call \<^verbatim>\<open>.route("/a,b)", handler(x, y))\<close> it splits
  after the quoted path, and the call scanner hands it these arguments.
\<close>

theorem split_top_level_comma_first:
  \<open>(split_top_level_comma args = Some (l, r) \<longleftrightarrow>
      (\<exists>i. top_level_comma args i \<and> (\<forall>j<i. \<not> top_level_comma args j)
           \<and> l = take i args \<and> r = drop (Suc i) args))
   \<and> (split_top_level_comma args = None \<longleftrightarrow> (\<forall>i. \<not> top_level_comma args i))
   \<and> split_top_level_comma ''"/a,b)", handler(x, y)'' = Some (''"/a,b)"'', '' handler(x, y)'')
   \<and> extract_two_arg_calls ''.route("/a,b)", handler(x, y))'' ''.route(''
       = Some [(''"/a,b)"'', '' handler(x, y)'')]\<close>
proof (intro conjI)
  have lt: "top_level_comma args i \<Longrightarrow> i < length args" for i
    by (simp add: top_level_comma_def)
  show "split_top_level_comma args = Some (l, r) \<longleftrightarrow>
      (\<exists>i. top_level_comma args i \<and> (\<forall>j<i. \<not> top_level_comma args j)
           \<and> l = take i args \<and> r = drop (Suc i) args)"
    using lt by (auto simp: split_top_level_comma_find find_upt_Some)
  show "split_top_level_comma args = None \<longleftrightarrow> (\<forall>i. \<not> top_level_comma args i)"
    using lt by (auto simp: split_top_level_comma_find find_upt_None)
  show \<open>split_top_level_comma ''"/a,b)", handler(x, y)'' = Some (''"/a,b)"'', '' handler(x, y)'')\<close>
    by (simp add: split_top_level_comma_def)
  show \<open>extract_two_arg_calls ''.route("/a,b)", handler(x, y))'' ''.route(''
       = Some [(''"/a,b)"'', '' handler(x, y)'')]\<close>
    by (simp add: extract_two_arg_calls_def extract_loop.simps str_find_def py_slice_def
        split_top_level_comma_def)
qed

theorem split_top_level_comma_first_witness:
  \<open>top_level_comma ''"/a,b)", handler(x, y)'' 7
   \<and> \<not> top_level_comma ''"/a,b)", handler(x, y)'' 3
   \<and> \<not> top_level_comma ''"/a,b)", handler(x, y)'' 18
   \<and> split_top_level_comma ''"/a,b)", handler(x, y)''
       = Some (take 7 ''"/a,b)", handler(x, y)'', drop 8 ''"/a,b)", handler(x, y)'')
   \<and> split_top_level_comma ''handler(x, y)'' = None
   \<and> (\<forall>i. \<not> top_level_comma ''handler(x, y)'' i)\<close>
proof -
  have a: \<open>top_level_comma ''"/a,b)", handler(x, y)'' 7\<close>
    and b: \<open>\<not> top_level_comma ''"/a,b)", handler(x, y)'' 3\<close>
    and c: \<open>\<not> top_level_comma ''"/a,b)", handler(x, y)'' 18\<close>
    by (simp_all add: top_level_comma_def lex_ctx_def)
  have s: \<open>split_top_level_comma ''"/a,b)", handler(x, y)''
       = Some (take 7 ''"/a,b)", handler(x, y)'', drop 8 ''"/a,b)", handler(x, y)'')\<close>
    by (simp add: split_top_level_comma_def)
  have n: \<open>split_top_level_comma ''handler(x, y)'' = None\<close>
    by (simp add: split_top_level_comma_def)
  from split_top_level_comma_first[of \<open>''handler(x, y)''\<close>] n
  have \<open>\<forall>i. \<not> top_level_comma ''handler(x, y)'' i\<close>
    by blast
  with a b c s n show ?thesis
    by blast
qed

text \<open>
  Claim C9. When the splitter returns a pair, the left part, a comma and the right part
  make up the argument text again, and no comma of the left part is at parenthesis depth
  zero outside a literal.
\<close>

theorem split_top_level_comma_roundtrip:
  assumes "split_top_level_comma args = Some (l, r)"
  shows "l @ '','' @ r = args \<and> (\<forall>j. \<not> top_level_comma l j)"
proof -
  from assms obtain i where f: "find (top_level_comma args) [0..<length args] = Some i"
    and l: "l = take i args" and r: "r = drop (Suc i) args"
    by (auto simp: split_top_level_comma_find)
  from f have i: "top_level_comma args i" and first: "\<forall>j<i. \<not> top_level_comma args j"
    by (auto simp: find_Some_iff)
  from i have "i < length args" "args ! i = CHR '',''"
    by (simp_all add: top_level_comma_def)
  then have "l @ '','' @ r = args"
    using l r id_take_nth_drop[of i args] by simp
  moreover have "\<forall>j. \<not> top_level_comma l j"
    using first top_level_comma_take[of i args] l by blast
  ultimately show ?thesis
    by simp
qed

theorem split_top_level_comma_roundtrip_witness:
  \<open>split_top_level_comma ''f(a, b), "x,y", z'' = Some (''f(a, b)'', '' "x,y", z'')
   \<and> ''f(a, b)'' @ '','' @ '' "x,y", z'' = ''f(a, b), "x,y", z''
   \<and> (\<forall>j. \<not> top_level_comma ''f(a, b)'' j)\<close>
proof -
  have s: \<open>split_top_level_comma ''f(a, b), "x,y", z'' = Some (''f(a, b)'', '' "x,y", z'')\<close>
    by (simp add: split_top_level_comma_def)
  from split_top_level_comma_roundtrip[OF s] s show ?thesis
    by simp
qed

section \<open>Properties of the call scanner\<close>

lemma scan_call_ge: "j \<le> scan_call j depth in_str esc rest"
  by (induction rest arbitrary: j depth in_str esc) (auto intro: Suc_leD)

lemma scan_call_le: "scan_call j depth in_str esc rest \<le> j + length rest"
proof (induction rest arbitrary: j depth in_str esc)
  case Nil
  then show ?case by simp
next
  case (Cons ch rest)
  have "scan_call (Suc j) d s e rest \<le> j + Suc (length rest)" for d s e
    using Cons.IH[of "Suc j" d s e] by simp
  then show ?case
    by simp
qed

lemma find_SomeD: "find P xs = Some x \<Longrightarrow> P x \<and> x \<in> set xs"
  by (induction xs) (auto split: if_splits)

lemma str_find_Some:
  assumes "str_find text needle i = Some idx"
  shows "i \<le> idx \<and> idx + length needle \<le> length text"
proof -
  from assms have "find (\<lambda>k. take (length needle) (drop k text) = needle) [i..<Suc (length text)] = Some idx"
    by (simp only: str_find_def)
  from find_SomeD[OF this] have mem: "idx \<in> set [i..<Suc (length text)]"
    and occ: "take (length needle) (drop idx text) = needle"
    by blast+
  from occ have "length (take (length needle) (drop idx text)) = length needle"
    by simp
  then have "length needle \<le> length text - idx"
    by simp
  moreover from mem have "i \<le> idx" "idx \<le> length text"
    by auto
  ultimately show ?thesis
    by arith
qed

text \<open>
  With a non-empty call token the outer loop returns: each round moves \<open>i\<close> past the
  occurrence it has found, and never beyond the end of the text.
\<close>

lemma extract_loop_returns:
  assumes "needle \<noteq> []"
  shows "\<exists>calls'. extract_loop text needle i calls = Some calls'"
proof (induction "Suc (length text) - i" arbitrary: i calls rule: less_induct)
  case less
  show ?case
  proof (cases "str_find text needle i")
    case None
    then show ?thesis
      by (subst extract_loop.simps) simp
  next
    case (Some idx)
    define start where "start = idx + length needle"
    define j where "j = scan_call start 1 False False (drop start text)"
    from str_find_Some[OF Some] have b: "i \<le> idx" "start \<le> length text"
      by (simp_all add: start_def)
    have "start \<le> j" "j \<le> start + (length text - start)"
      using scan_call_ge[of start 1 False False "drop start text"]
        scan_call_le[of start 1 False False "drop start text"]
      by (simp_all add: j_def)
    moreover have "0 < length needle"
      using assms by simp
    ultimately have "i < j" "j \<le> length text"
      using b unfolding start_def by linarith+
    then have "Suc (length text) - j < Suc (length text) - i"
      by simp
    from less[OF this] show ?thesis
      using Some by (subst extract_loop.simps) (simp add: Let_def start_def j_def)
  qed
qed

lemma extract_two_arg_calls_returns:
  "needle \<noteq> [] \<Longrightarrow> \<exists>calls. extract_two_arg_calls text needle = Some calls"
  by (simp add: extract_two_arg_calls_def extract_loop_returns)

text \<open>
  Claim C5. The scanner returns on every text (above, for every non-empty call token) and
  stops at the end of the input. An occurrence whose parentheses are still open at the
  end of the input is not skipped: the loop leaves with \<open>j = len(text)\<close>, the arguments
  are taken as \<^verbatim>\<open>text[start:j-1]\<close>, which drops the last character of the input, and
  the split of that text is appended. On \<^verbatim>\<open>.route("/a", get(h)\<close> the scanner returns
  the pair of \<^verbatim>\<open>"/a"\<close> and \<^verbatim>\<open> get(h\<close>.
\<close>

theorem extract_two_arg_calls_unbalanced:
  \<open>scan_call 7 1 False False (drop 7 ''.route("/a", get(h)'') = length ''.route("/a", get(h)''
   \<and> extract_two_arg_calls ''.route("/a", get(h)'' ''.route('' = Some [(''"/a"'', '' get(h'')]
   \<and> extract_two_arg_calls ''.route("/a", get(h))'' ''.route('' = Some [(''"/a"'', '' get(h)'')]\<close>
  by (simp add: extract_two_arg_calls_def extract_loop.simps str_find_def py_slice_def
      split_top_level_comma_def)

section \<open>Properties of the module resolver\<close>





section \<open>Properties of the router tree walker\<close>

lemma resolve_on_disk:
  "resolve_module_file exists_on_disk routes_root current_file module_ref = Some f \<Longrightarrow> exists_on_disk f"
  by (auto simp: resolve_module_file_def dest: find_SomeD split: option.splits)

lemma walk_on_stack: "path \<in> set stack \<Longrightarrow> walk d routes_root stack path prefix = Inr {}"
  by (simp add: walk.simps)

lemma walk_yields_on_stack: "path \<in> set stack \<Longrightarrow> \<not> walk_yields d routes_root stack path prefix ep"
  by (auto elim: walk_yields.cases)

lemma nests_yield_Nil [simp]: "nests_yield d routes_root stack path prefix [] = {}"
  by (simp add: nests_yield_def)

lemma nests_yield_Cons:
  "nests_yield d routes_root stack path prefix (nest # rest) =
     (case resolve_module_file (on_disk d) routes_root path (nest_module nest) of
        None \<Rightarrow> {}
      | Some f \<Rightarrow> {ep. walk_yields d routes_root stack f (join_paths prefix (nest_prefix nest)) ep})
     \<union> nests_yield d routes_root stack path prefix rest"
  by (auto simp: nests_yield_def split: option.splits)

lemma walk_yields_unfold:
  assumes "path \<notin> set stack" "map_of d path = Some parsed"
  shows "{ep. walk_yields d routes_root stack path prefix ep} =
     (\<lambda>ep. Endpoint (ep_method ep) (join_paths prefix (ep_path ep))) ` endpoints parsed
     \<union> nests_yield d routes_root (stack @ [path]) path prefix (nests parsed)"
proof -
  have "walk_yields d routes_root stack path prefix ep \<longleftrightarrow>
      ep \<in> (\<lambda>ep. Endpoint (ep_method ep) (join_paths prefix (ep_path ep))) ` endpoints parsed
        \<union> nests_yield d routes_root (stack @ [path]) path prefix (nests parsed)" for ep
    using assms by (subst walk_yields.simps) (auto simp: nests_yield_def)
  then show ?thesis
    by blast
qed

text \<open>
  The walk of a file that exists, or that is on the stack, returns the set described by
  \<open>walk_yields\<close>; the loop over delegations returns the union over the resolved ones.
  The proof follows the recursion of the walker.
\<close>

lemma walk_exact:
  "on_disk d path \<or> path \<in> set stack \<longrightarrow>
     walk d routes_root stack path prefix = Inr {ep. walk_yields d routes_root stack path prefix ep}"
  "walk_nests d routes_root stack path prefix ns = Inr (nests_yield d routes_root stack path prefix ns)"
proof (induction d routes_root stack path prefix and d routes_root stack path prefix ns
    rule: walk_walk_nests.induct)
  case (1 d routes_root stack path prefix)
  show ?case
  proof (cases "path \<in> set stack")
    case True
    then show ?thesis
      by (simp add: walk_on_stack walk_yields_on_stack)
  next
    case False
    show ?thesis
    proof
      assume "on_disk d path \<or> path \<in> set stack"
      with False obtain parsed where p: "map_of d path = Some parsed"
        by (auto simp: on_disk_def)
      from "1.IH"[OF False p]
      show "walk d routes_root stack path prefix = Inr {ep. walk_yields d routes_root stack path prefix ep}"
        using False p by (simp add: walk.simps walk_yields_unfold)
    qed
  qed
next
  case (2 d routes_root stack path prefix)
  then show ?case
    by simp
next
  case (3 d routes_root stack path prefix nest rest)
  show ?case
  proof (cases "resolve_module_file (on_disk d) routes_root path (nest_module nest)")
    case None
    with "3.IH"(1) show ?thesis
      by (simp add: nests_yield_Cons)
  next
    case (Some f)
    then have f: "on_disk d f"
      by (rule resolve_on_disk)
    have w: "walk d routes_root stack f (join_paths prefix (nest_prefix nest)) =
        Inr {ep. walk_yields d routes_root stack f (join_paths prefix (nest_prefix nest)) ep}"
      using "3.IH"(2)[OF refl Some] f by simp
    have "walk_nests d routes_root stack path prefix rest =
        Inr (nests_yield d routes_root stack path prefix rest)"
      using "3.IH"(3)[OF refl Some w] .
    with Some w show ?thesis
      by (simp add: nests_yield_Cons)
  qed
qed

lemma walk_nests_append:
  "walk_nests d routes_root stack path prefix (xs @ ys) =
     (case walk_nests d routes_root stack path prefix xs of
        Inl e \<Rightarrow> Inl e
      | Inr a \<Rightarrow>
          (case walk_nests d routes_root stack path prefix ys of
             Inl e \<Rightarrow> Inl e
           | Inr b \<Rightarrow> Inr (a \<union> b)))"
  by (induction xs) (auto split: option.splits sum.splits)

text \<open>
  Claim C4. The walker is a total function: its recursion is well founded for every
  disk, because each file it enters is a file of the disk that is not on the stack, and
  it is on the stack of every nested call. A file on the stack is not entered and gives
  the empty set; the walk of a file that exists returns, without an error, exactly the
  endpoints that are reached along delegation chains on which no file occurs twice.
\<close>

theorem walk_cycle_safe:
  "(path \<in> set stack \<longrightarrow> walk d routes_root stack path prefix = Inr {})
   \<and> (on_disk d path \<longrightarrow>
        walk d routes_root stack path prefix = Inr {ep. walk_yields d routes_root stack path prefix ep})"
  using walk_exact(1)[of d path stack routes_root prefix] by (simp add: walk_on_stack)

text \<open>
  A tree with cycles: the root file delegates twice to \<open>b.rs\<close> and once to a module that
  does not exist; \<open>b.rs\<close> delegates back to the root file and to itself.
\<close>

theorem walk_cycle_safe_witness:
  "on_disk
     [([''routes'', ''mod.rs''],
        \<lparr>endpoints = {Endpoint ''GET'' ''/a''},
         nests = [NestCall ''/x'' ''b'', NestCall ''/q'' ''missing'', NestCall ''/y'' ''b'']\<rparr>),
      ([''routes'', ''b.rs''],
        \<lparr>endpoints = {Endpoint ''POST'' ''/b''},
         nests = [NestCall ''/back'' ''super::routes::mod'', NestCall ''/self'' ''b'']\<rparr>)]
     [''routes'', ''mod.rs'']
   \<and> resolve_module_file
       (on_disk
         [([''routes'', ''mod.rs''],
            \<lparr>endpoints = {Endpoint ''GET'' ''/a''},
             nests = [NestCall ''/x'' ''b'', NestCall ''/q'' ''missing'', NestCall ''/y'' ''b'']\<rparr>),
          ([''routes'', ''b.rs''],
            \<lparr>endpoints = {Endpoint ''POST'' ''/b''},
             nests = [NestCall ''/back'' ''super::routes::mod'', NestCall ''/self'' ''b'']\<rparr>)])
       [''routes''] [''routes'', ''b.rs''] ''super::routes::mod'' = Some [''routes'', ''mod.rs'']
   \<and> {ep. walk_yields
         [([''routes'', ''mod.rs''],
            \<lparr>endpoints = {Endpoint ''GET'' ''/a''},
             nests = [NestCall ''/x'' ''b'', NestCall ''/q'' ''missing'', NestCall ''/y'' ''b'']\<rparr>),
          ([''routes'', ''b.rs''],
            \<lparr>endpoints = {Endpoint ''POST'' ''/b''},
             nests = [NestCall ''/back'' ''super::routes::mod'', NestCall ''/self'' ''b'']\<rparr>)]
         [''routes''] [] [''routes'', ''mod.rs''] '''' ep}
       = {Endpoint ''GET'' ''/a'', Endpoint ''POST'' ''/x/b'', Endpoint ''POST'' ''/y/b''}"
proof -
  let ?d = "[([''routes'', ''mod.rs''],
        \<lparr>endpoints = {Endpoint ''GET'' ''/a''},
         nests = [NestCall ''/x'' ''b'', NestCall ''/q'' ''missing'', NestCall ''/y'' ''b'']\<rparr>),
      ([''routes'', ''b.rs''],
        \<lparr>endpoints = {Endpoint ''POST'' ''/b''},
         nests = [NestCall ''/back'' ''super::routes::mod'', NestCall ''/self'' ''b'']\<rparr>)]"
  have e: "on_disk ?d [''routes'', ''mod.rs'']"
    by (simp add: on_disk_def)
  have r: "resolve_module_file (on_disk ?d) [''routes''] [''routes'', ''b.rs''] ''super::routes::mod''
      = Some [''routes'', ''mod.rs'']"
    by (simp add: resolve_module_file_def module_candidates_def module_parts_def py_strip_def
        is_space_def candidates_from_def add_candidates_def on_disk_def parent_def)
  have w: "walk ?d [''routes''] [] [''routes'', ''mod.rs''] ''''
      = Inr {Endpoint ''GET'' ''/a'', Endpoint ''POST'' ''/x/b'', Endpoint ''POST'' ''/y/b''}"
    by (simp add: walk.simps resolve_module_file_def module_candidates_def module_parts_def
        py_strip_def is_space_def candidates_from_def add_candidates_def on_disk_def parent_def
        join_paths_def insert_commute)
  from walk_cycle_safe[of "[''routes'', ''mod.rs'']" "[]" ?d "[''routes'']" "''''"] e w
  have "{ep. walk_yields ?d [''routes''] [] [''routes'', ''mod.rs''] '''' ep}
       = {Endpoint ''GET'' ''/a'', Endpoint ''POST'' ''/x/b'', Endpoint ''POST'' ''/y/b''}"
    by simp
  with e r show ?thesis
    by blast
qed

text \<open>
  Claim C6. A delegation whose module reference does not resolve to a file is skipped:
  the walk of the delegations of a file gives the same result, error or set, as the walk
  of the same delegations without that one, wherever it stands among its siblings.
\<close>

theorem walk_nests_unresolved_skipped:
  assumes "resolve_module_file (on_disk d) routes_root path (nest_module nest) = None"
  shows "walk_nests d routes_root stack path prefix (before @ nest # after)
       = walk_nests d routes_root stack path prefix (before @ after)"
proof -
  have "walk_nests d routes_root stack path prefix (nest # after)
      = walk_nests d routes_root stack path prefix after"
    using assms by simp
  then show ?thesis
    by (simp only: walk_nests_append)
qed

theorem walk_nests_unresolved_skipped_witness:
  "resolve_module_file
       (on_disk [([''routes'', ''mod.rs''], \<lparr>endpoints = {}, nests = []\<rparr>),
                 ([''routes'', ''b.rs''], \<lparr>endpoints = {Endpoint ''POST'' ''/b''}, nests = []\<rparr>)])
       [''routes''] [''routes'', ''mod.rs''] (nest_module (NestCall ''/q'' ''missing'')) = None
   \<and> walk_nests [([''routes'', ''mod.rs''], \<lparr>endpoints = {}, nests = []\<rparr>),
                  ([''routes'', ''b.rs''], \<lparr>endpoints = {Endpoint ''POST'' ''/b''}, nests = []\<rparr>)]
        [''routes''] [[''routes'', ''mod.rs'']] [''routes'', ''mod.rs''] ''''
        ([NestCall ''/x'' ''b''] @ NestCall ''/q'' ''missing'' # [NestCall ''/y'' ''b''])
      = walk_nests [([''routes'', ''mod.rs''], \<lparr>endpoints = {}, nests = []\<rparr>),
                  ([''routes'', ''b.rs''], \<lparr>endpoints = {Endpoint ''POST'' ''/b''}, nests = []\<rparr>)]
        [''routes''] [[''routes'', ''mod.rs'']] [''routes'', ''mod.rs''] ''''
        ([NestCall ''/x'' ''b''] @ [NestCall ''/y'' ''b''])
   \<and> walk_nests [([''routes'', ''mod.rs''], \<lparr>endpoints = {}, nests = []\<rparr>),
                  ([''routes'', ''b.rs''], \<lparr>endpoints = {Endpoint ''POST'' ''/b''}, nests = []\<rparr>)]
        [''routes''] [[''routes'', ''mod.rs'']] [''routes'', ''mod.rs''] ''''
        ([NestCall ''/x'' ''b''] @ NestCall ''/q'' ''missing'' # [NestCall ''/y'' ''b''])
      = Inr {Endpoint ''POST'' ''/x/b'', Endpoint ''POST'' ''/y/b''}"
proof -
  let ?d = "[([''routes'', ''mod.rs''], \<lparr>endpoints = {}, nests = []\<rparr>),
             ([''routes'', ''b.rs''], \<lparr>endpoints = {Endpoint ''POST'' ''/b''}, nests = []\<rparr>)]"
  have r: "resolve_module_file (on_disk ?d) [''routes''] [''routes'', ''mod.rs'']
      (nest_module (NestCall ''/q'' ''missing'')) = None"
    by (simp add: resolve_module_file_def module_candidates_def module_parts_def py_strip_def
        is_space_def candidates_from_def add_candidates_def on_disk_def parent_def)
  have v: "walk_nests ?d [''routes''] [[''routes'', ''mod.rs'']] [''routes'', ''mod.rs''] ''''
        ([NestCall ''/x'' ''b''] @ [NestCall ''/y'' ''b''])
      = Inr {Endpoint ''POST'' ''/x/b'', Endpoint ''POST'' ''/y/b''}"
    by (simp add: walk.simps resolve_module_file_def module_candidates_def module_parts_def
        py_strip_def is_space_def candidates_from_def add_candidates_def on_disk_def parent_def
        join_paths_def insert_commute)
  from walk_nests_unresolved_skipped[OF r, of "[[''routes'', ''mod.rs'']]" "''''"
      "[NestCall ''/x'' ''b'']" "[NestCall ''/y'' ''b'']"] r v
  show ?thesis
    by simp
qed

section \<open>Properties of the coverage figure\<close>

lemma bitlen_numeral_step: "bitlen (numeral n) = bitlen (numeral n div 2) + 1" "bitlen 1 = 1"
  by (subst compute_bitlen, simp)+

lemma round_half_even_near: "\<bar>real_of_int (round_half_even y) - y\<bar> \<le> 1 / 2"
proof -
  have "real_of_int \<lfloor>y\<rfloor> \<le> y" "y < real_of_int \<lfloor>y\<rfloor> + 1"
    by linarith+
  then show ?thesis
    by (auto simp: round_half_even_def Let_def)
qed

lemma round_half_even_nonneg: "0 \<le> y \<Longrightarrow> 0 \<le> round_half_even y"
  by (auto simp: round_half_even_def Let_def)

lemma floor_log2_le:
  assumes "0 < x"
  shows "2 powi floor_log2 x \<le> x"
proof (cases "1 \<le> x")
  case True
  then have p: "0 < \<lfloor>x\<rfloor>"
    by simp
  from bitlen_bounds[OF p] have "(2::int) ^ nat (bitlen \<lfloor>x\<rfloor> - 1) \<le> \<lfloor>x\<rfloor>"
    by simp
  then have "2 ^ nat (bitlen \<lfloor>x\<rfloor> - 1) \<le> real_of_int \<lfloor>x\<rfloor>"
    using of_int_le_iff[of "2 ^ nat (bitlen \<lfloor>x\<rfloor> - 1)" "\<lfloor>x\<rfloor>", where ?'a = real] by simp
  moreover have "real_of_int \<lfloor>x\<rfloor> \<le> x"
    by simp
  ultimately have "2 ^ nat (bitlen \<lfloor>x\<rfloor> - 1) \<le> x"
    by linarith
  moreover have "0 \<le> bitlen \<lfloor>x\<rfloor> - 1"
    using p bitlen_eq_zero_iff[of "\<lfloor>x\<rfloor>"] bitlen_nonneg[of "\<lfloor>x\<rfloor>"] by linarith
  ultimately show ?thesis
    using True by (simp add: floor_log2_def power_int_def)
next
  case False
  define N where "N = \<lceil>1 / x\<rceil>"
  define k where "k = bitlen (N - 1)"
  from False assms have "1 < 1 / x"
    by (simp add: field_simps)
  then have N: "1 < N"
    unfolding N_def by linarith
  then have p: "0 < N - 1"
    by simp
  from bitlen_bounds[OF p] have "N - 1 < 2 ^ nat k"
    by (simp add: k_def)
  then have "N \<le> 2 ^ nat k"
    by simp
  then have "real_of_int N \<le> 2 ^ nat k"
    using of_int_le_iff[of N "2 ^ nat k", where ?'a = real] by simp
  moreover have "1 / x \<le> real_of_int N"
    unfolding N_def by linarith
  ultimately have "1 / x \<le> 2 ^ nat k"
    by linarith
  then have "1 / 2 ^ nat k \<le> x"
    using assms by (simp add: field_simps)
  moreover have "0 \<le> k"
    by (simp add: k_def bitlen_nonneg)
  then have "2 powi (- k) = 1 / (2::real) ^ nat k"
    by (simp add: power_int_minus power_int_def inverse_eq_divide power_one_over)
  moreover have "floor_log2 x = - k"
    using False by (simp add: floor_log2_def N_def k_def)
  ultimately show ?thesis
    by simp
qed

lemma floor_log2_less:
  assumes "0 < x"
  shows "x < 2 powi (floor_log2 x + 1)"
proof (cases "1 \<le> x")
  case True
  then have p: "0 < \<lfloor>x\<rfloor>"
    by simp
  from bitlen_bounds[OF p] have "\<lfloor>x\<rfloor> + 1 \<le> 2 ^ nat (bitlen \<lfloor>x\<rfloor>)"
    by simp
  then have "real_of_int \<lfloor>x\<rfloor> + 1 \<le> 2 ^ nat (bitlen \<lfloor>x\<rfloor>)"
    using of_int_le_iff[of "\<lfloor>x\<rfloor> + 1" "2 ^ nat (bitlen \<lfloor>x\<rfloor>)", where ?'a = real] by simp
  moreover have "x < real_of_int \<lfloor>x\<rfloor> + 1"
    by linarith
  ultimately have "x < 2 ^ nat (bitlen \<lfloor>x\<rfloor>)"
    by linarith
  moreover have "0 \<le> bitlen \<lfloor>x\<rfloor>"
    by (rule bitlen_nonneg)
  ultimately show ?thesis
    using True by (simp add: floor_log2_def power_int_def)
next
  case False
  define N where "N = \<lceil>1 / x\<rceil>"
  define k where "k = bitlen (N - 1)"
  from False assms have "1 < 1 / x"
    by (simp add: field_simps)
  then have N: "1 < N"
    unfolding N_def by linarith
  then have p: "0 < N - 1"
    by simp
  from bitlen_bounds[OF p] have "2 ^ nat (k - 1) \<le> N - 1"
    by (simp add: k_def)
  then have "2 ^ nat (k - 1) \<le> real_of_int (N - 1)"
    using of_int_le_iff[of "2 ^ nat (k - 1)" "N - 1", where ?'a = real] by simp
  moreover have "real_of_int (N - 1) < 1 / x"
    unfolding N_def by linarith
  ultimately have "2 ^ nat (k - 1) < 1 / x"
    by linarith
  then have "x < 1 / 2 ^ nat (k - 1)"
    using assms by (simp add: field_simps)
  moreover have "1 \<le> k"
    using p bitlen_eq_zero_iff[of "N - 1"] bitlen_nonneg[of "N - 1"] unfolding k_def by linarith
  then have "2 powi (- (k - 1)) = 1 / (2::real) ^ nat (k - 1)"
    by (simp add: power_int_minus power_int_def inverse_eq_divide power_one_over)
  moreover have "floor_log2 x + 1 = - (k - 1)"
    using False by (simp add: floor_log2_def N_def k_def)
  ultimately show ?thesis
    by simp
qed

text \<open>
  The rounded value is within half a unit in the last place of the exact one: a relative
  error of \<open>2\<^sup>-\<^sup>5\<^sup>3\<close>, or half the spacing of the subnormal numbers.
\<close>

lemma round_double_near:
  "\<bar>round_double x - x\<bar> \<le> max (\<bar>x\<bar> / 2 ^ 53) (1 / 2 ^ 1075)"
proof (cases "x = 0")
  case True
  then show ?thesis
    by (simp add: round_double_def)
next
  case False
  define e where "e = max (floor_log2 \<bar>x\<bar> - 52) (- 1074)"
  define m where "m = round_half_even (x / 2 powi e)"
  have pos: "0 < (2::real) powi e"
    by simp
  have rd: "round_double x = real_of_int m * 2 powi e"
    using False by (simp add: round_double_def e_def m_def Let_def)
  have "round_double x - x = (real_of_int m - x / 2 powi e) * 2 powi e"
    using pos by (simp add: rd field_simps)
  then have "\<bar>round_double x - x\<bar> = \<bar>real_of_int m - x / 2 powi e\<bar> * 2 powi e"
    using pos by (simp add: abs_mult)
  also have "\<dots> \<le> 1 / 2 * 2 powi e"
    using round_half_even_near[of "x / 2 powi e"] pos
    by (intro mult_right_mono) (simp_all add: m_def)
  finally have b: "\<bar>round_double x - x\<bar> \<le> 2 powi e / 2"
    by simp
  have "(2::real) powi e \<le> max (\<bar>x\<bar> / 2 ^ 52) (1 / 2 ^ 1074)"
  proof (cases "- 1074 \<le> floor_log2 \<bar>x\<bar> - 52")
    case True
    then have "e = floor_log2 \<bar>x\<bar> - 52"
      by (simp add: e_def)
    then have "(2::real) powi e = 2 powi floor_log2 \<bar>x\<bar> / 2 ^ 52"
      by (simp add: power_int_diff)
    also have "\<dots> \<le> \<bar>x\<bar> / 2 ^ 52"
      using floor_log2_le[of "\<bar>x\<bar>"] \<open>x \<noteq> 0\<close> by (simp add: divide_right_mono)
    finally show ?thesis
      by simp
  next
    case False
    then have "e = - 1074"
      by (simp add: e_def)
    then have "(2::real) powi e = 1 / 2 ^ 1074"
      by (simp add: power_int_minus inverse_eq_divide)
    then show ?thesis
      by simp
  qed
  then have "(2::real) powi e / 2 \<le> max (\<bar>x\<bar> / 2 ^ 52) (1 / 2 ^ 1074) / 2"
    by (simp add: divide_right_mono)
  also have "\<dots> = max (\<bar>x\<bar> / 2 ^ 53) (1 / 2 ^ 1075)"
    by (simp add: max_def)
  finally show ?thesis
    using b by linarith
qed

lemma round_double_nonneg: "0 \<le> x \<Longrightarrow> 0 \<le> round_double x"
  by (simp add: round_double_def Let_def round_half_even_nonneg)

lemma round_double_normal:
  assumes "1 / 2 ^ 1022 \<le> x"
  shows "\<bar>round_double x - x\<bar> \<le> x / 2 ^ 53"
proof -
  have "0 < x"
    using assms by (rule less_le_trans[rotated]) simp
  have "(1::real) / 2 ^ 1075 = 1 / 2 ^ 1022 / 2 ^ 53"
    by simp
  also have "\<dots> \<le> x / 2 ^ 53"
    using assms by (rule divide_right_mono) simp
  finally have "max (\<bar>x\<bar> / 2 ^ 53) (1 / 2 ^ 1075) = x / 2 ^ 53"
    using \<open>0 < x\<close> by (simp add: max_def)
  with round_double_near[of x] show ?thesis
    by simp
qed

lemma round_double_small:
  assumes "0 \<le> x" "x \<le> 256"
  shows "0 \<le> round_double x" "round_double x < 2 ^ 1024"
proof -
  show "0 \<le> round_double x"
    using assms by (simp add: round_double_nonneg)
  have "max (\<bar>x\<bar> / 2 ^ 53) (1 / 2 ^ 1075) \<le> 1"
    using assms by (simp add: max_def field_simps)
  with round_double_near[of x] assms have "round_double x \<le> 257"
    by linarith
  also have "(257::real) < 2 ^ 1024"
    by simp
  finally show "round_double x < 2 ^ 1024" .
qed

text \<open>Values of the rounding that the examples below need.\<close>

lemma round_double_values:
  "round_double 1 = 1"
  "round_double 100 = 100"
  "round_double (1 / 2) = 1 / 2"
  "round_double 50 = 50"
  "round_double (11 / 20) = 2476979795053773 / 4503599627370496"
  "round_double (61924494876344325 / 1125899906842624) = 7740561859543041 / 140737488355328"
  "round_double (29 / 100) = 5224175567749775 / 18014398509481984"
  "round_double (130604389193744375 / 4503599627370496) = 8162774324609023 / 281474976710656"
  by (simp_all add: round_double_def floor_log2_def round_half_even_def bitlen_numeral_step Let_def)

text \<open>
  For counts \<open>0 \<le> n \<le> d\<close> with \<open>d \<noteq> 0\<close> neither operation overflows or yields a negative
  zero, so the result is the twice rounded value.
\<close>

lemma percent_value:
  assumes "0 \<le> n" "n \<le> d" "0 < d"
  shows "percent n d = Inr (Finite (round_double (round_double (real_of_int n / real_of_int d) * 100)))"
proof -
  define q where "q = real_of_int n / real_of_int d"
  define r where "r = round_double q"
  have q: "0 \<le> q" "q \<le> 1"
    using assms by (simp_all add: q_def)
  then have r: "0 \<le> r" "r < 2 ^ 1024"
    using round_double_small[of q] by (simp_all add: r_def)
  have "max (\<bar>q\<bar> / 2 ^ 53) (1 / 2 ^ 1075) \<le> 1"
    using q by (simp add: max_def field_simps)
  with round_double_near[of q] q have "r \<le> 2"
    unfolding r_def by linarith
  then have p: "0 \<le> r * 100" "r * 100 \<le> 256"
    using r by simp_all
  have d: "int_truediv n d = Inr (Finite r)"
    using assms q r by (simp add: int_truediv_def Let_def q_def[symmetric] r_def[symmetric])
  have "float_mul_100 (Finite r) = Finite (round_double (r * 100))"
    using round_double_small[OF p] r by (simp add: float_mul_100_def Let_def)
  with d assms show ?thesis
    by (simp add: percent_def q_def r_def)
qed

lemma percent_error:
  assumes "0 < n" "n \<le> d" "d < 2 ^ 63"
  shows "\<bar>round_double (round_double (real_of_int n / real_of_int d) * 100)
            - real_of_int n / real_of_int d * 100\<bar>
         \<le> real_of_int n / real_of_int d * 100 / 2 ^ 51"
proof -
  define q where "q = real_of_int n / real_of_int d"
  define r where "r = round_double q"
  have dpos: "0 < real_of_int d" "real_of_int d \<le> 2 ^ 63"
    using assms of_int_le_iff[of d "2 ^ 63", where ?'a = real] by simp_all
  have "1 / 2 ^ 63 \<le> 1 / real_of_int d"
    using dpos by (simp add: field_simps)
  also have "\<dots> \<le> q"
    using assms dpos by (simp add: q_def divide_right_mono)
  finally have ql: "1 / 2 ^ 63 \<le> q" .
  then have qn: "1 / 2 ^ 1022 \<le> q"
    by (rule order_trans[rotated]) simp
  have qpos: "0 < q"
    using ql by (rule less_le_trans[rotated]) simp
  from round_double_normal[OF qn] have e1: "\<bar>r - q\<bar> \<le> q / 2 ^ 53"
    by (simp add: r_def)
  have small: "q / 2 ^ 53 \<le> q / 2"
    using qpos by (simp add: field_simps)
  have rl: "q / 2 \<le> r"
    using e1 small by linarith
  have "(1::real) / 2 ^ 1022 \<le> 1 / 2 ^ 63"
    by simp
  then have pn: "1 / 2 ^ 1022 \<le> r * 100"
    using ql rl qpos by linarith
  from round_double_normal[OF pn]
  have e2: "\<bar>round_double (r * 100) - r * 100\<bar> \<le> r * 100 / 2 ^ 53" .
  have "r \<le> 2 * q"
    using e1 small qpos by linarith
  then have "r * 100 / 2 ^ 53 \<le> 2 * q * 100 / 2 ^ 53"
    by (simp add: field_simps)
  with e2 have e3: "\<bar>round_double (r * 100) - r * 100\<bar> \<le> 2 * q * 100 / 2 ^ 53"
    by linarith
  have "r * 100 - q * 100 = (r - q) * 100"
    by (simp add: algebra_simps)
  then have "\<bar>r * 100 - q * 100\<bar> = \<bar>(r - q) * 100\<bar>"
    by (simp only:)
  also have "\<dots> = \<bar>r - q\<bar> * \<bar>100\<bar>"
    by (rule abs_mult)
  finally have "\<bar>r * 100 - q * 100\<bar> = 100 * \<bar>r - q\<bar>"
    by simp
  then have "\<bar>round_double (r * 100) - q * 100\<bar>
      \<le> \<bar>round_double (r * 100) - r * 100\<bar> + 100 * \<bar>r - q\<bar>"
    using abs_triangle_ineq[of "round_double (r * 100) - r * 100" "r * 100 - q * 100"] by simp
  also have "\<dots> \<le> 2 * q * 100 / 2 ^ 53 + 100 * (q / 2 ^ 53)"
    using e1 e3 by (intro add_mono mult_left_mono) simp_all
  also have "\<dots> \<le> q * 100 / 2 ^ 51"
    using qpos by (simp add: field_simps)
  finally show ?thesis
    by (simp add: q_def r_def)
qed

text \<open>
  Claim C8, as stated, with the exact quotient: of 20 contract endpoints 11 are covered,
  the exact percentage is 55, and the program computes \<open>55.00000000000001\<close>; for 29 of
  100 it computes \<open>28.999999999999996\<close>.
\<close>

theorem coverage_exact_counterexample:
  "coverage ((\<lambda>i. Endpoint ''GET'' (''/r'' @ replicate i (CHR ''x''))) ` {..<20})
            ((\<lambda>i. Endpoint ''GET'' (''/r'' @ replicate i (CHR ''x''))) ` {..<11})
     = Inr (Finite (7740561859543041 / 140737488355328))
   \<and> coverage ((\<lambda>i. Endpoint ''GET'' (''/r'' @ replicate i (CHR ''x''))) ` {..<20})
            ((\<lambda>i. Endpoint ''GET'' (''/r'' @ replicate i (CHR ''x''))) ` {..<11})
     \<noteq> Inr (Finite (11 / 20 * 100))
   \<and> percent 29 100 = Inr (Finite (8162774324609023 / 281474976710656))
   \<and> percent 29 100 \<noteq> Inr (Finite (29 / 100 * 100))"
proof -
  let ?f = "\<lambda>i. Endpoint ''GET'' (''/r'' @ replicate i (CHR ''x''))"
  have inj: "inj ?f"
    by (simp add: inj_on_def)
  have c20: "card (?f ` {..<20}) = 20" and c11: "card (?f ` {..<11}) = 11"
    using inj by (simp_all add: card_image inj_on_subset)
  have "?f ` {..<11} \<subseteq> ?f ` {..<20}"
    by (intro image_mono) simp
  then have i: "?f ` {..<20} \<inter> ?f ` {..<11} = ?f ` {..<11}"
    by blast
  have v: "coverage (?f ` {..<20}) (?f ` {..<11}) = Inr (Finite (7740561859543041 / 140737488355328))"
    unfolding coverage_def Let_def i c20 c11
    using percent_value[of 11 20] by (simp add: round_double_values)
  have p: "percent 29 100 = Inr (Finite (8162774324609023 / 281474976710656))"
    using percent_value[of 29 100] by (simp add: round_double_values)
  from v p show ?thesis
    by simp
qed

text \<open>
  Claim C8, amended. For finite sets of contract and router endpoints the coverage is
  exactly 100.0 when the contract set is empty. When it is not empty, the coverage is
  the result of the two floating-point operations: the quotient of the number of covered
  endpoints by the number of contract endpoints, rounded to the nearest double, times
  100, rounded again. It differs from the exact percentage by a relative error of at
  most \<open>2\<^sup>-\<^sup>5\<^sup>1\<close> (for sets of fewer than \<open>2\<^sup>6\<^sup>3\<close> endpoints, the bound of
  \<^verbatim>\<open>len\<close>), and it is exactly 100.0 when every contract endpoint is covered and
  exactly 0.0 when none is.
\<close>

theorem coverage_percent:
  assumes "finite contract"
  shows "(contract = {} \<longrightarrow> coverage contract rust = Inr (Finite 100))
    \<and> (contract \<noteq> {} \<longrightarrow>
         coverage contract rust =
           Inr (Finite (round_double
             (round_double (real (card (contract \<inter> rust)) / real (card contract)) * 100))))
    \<and> (contract \<noteq> {} \<and> card contract < 2 ^ 63 \<longrightarrow>
         (\<exists>v. coverage contract rust = Inr (Finite v)
            \<and> \<bar>v - real (card (contract \<inter> rust)) / real (card contract) * 100\<bar>
                \<le> real (card (contract \<inter> rust)) / real (card contract) * 100 / 2 ^ 51))
    \<and> (contract \<noteq> {} \<and> contract \<subseteq> rust \<longrightarrow> coverage contract rust = Inr (Finite 100))
    \<and> (contract \<noteq> {} \<and> contract \<inter> rust = {} \<longrightarrow> coverage contract rust = Inr (Finite 0))"
proof -
  define n where "n = int (card (contract \<inter> rust))"
  define d where "d = int (card contract)"
  have nd: "0 \<le> n" "n \<le> d"
    using assms by (simp_all add: n_def d_def card_mono)
  have cov: "coverage contract rust = percent n d"
    by (simp add: coverage_def n_def d_def)
  have val: "coverage contract rust
      = Inr (Finite (round_double (round_double (real_of_int n / real_of_int d) * 100)))"
    if "contract \<noteq> {}"
  proof -
    from that assms have "0 < d"
      by (simp add: d_def card_gt_0_iff)
    with nd show ?thesis
      by (simp add: cov percent_value)
  qed
  have a: "contract = {} \<longrightarrow> coverage contract rust = Inr (Finite 100)"
    by (simp add: coverage_def percent_def)
  have b: "contract \<noteq> {} \<longrightarrow>
         coverage contract rust =
           Inr (Finite (round_double
             (round_double (real (card (contract \<inter> rust)) / real (card contract)) * 100)))"
    using val by (simp add: n_def d_def)
  have c: "contract \<noteq> {} \<and> card contract < 2 ^ 63 \<longrightarrow>
         (\<exists>v. coverage contract rust = Inr (Finite v)
            \<and> \<bar>v - real (card (contract \<inter> rust)) / real (card contract) * 100\<bar>
                \<le> real (card (contract \<inter> rust)) / real (card contract) * 100 / 2 ^ 51)"
  proof
    assume h: "contract \<noteq> {} \<and> card contract < 2 ^ 63"
    then have dl: "d < 2 ^ 63"
      unfolding d_def using of_nat_less_iff[of "card contract" "2 ^ 63", where ?'a = int] by simp
    have "\<bar>round_double (round_double (real_of_int n / real_of_int d) * 100)
            - real_of_int n / real_of_int d * 100\<bar>
         \<le> real_of_int n / real_of_int d * 100 / 2 ^ 51"
    proof (cases "n = 0")
      case True
      then show ?thesis
        by (simp add: round_double_def)
    next
      case False
      with nd have "0 < n"
        by simp
      then show ?thesis
        using nd(2) dl by (rule percent_error)
    qed
    with val h show "\<exists>v. coverage contract rust = Inr (Finite v)
            \<and> \<bar>v - real (card (contract \<inter> rust)) / real (card contract) * 100\<bar>
                \<le> real (card (contract \<inter> rust)) / real (card contract) * 100 / 2 ^ 51"
      by (simp add: n_def d_def)
  qed
  have e: "contract \<noteq> {} \<and> contract \<subseteq> rust \<longrightarrow> coverage contract rust = Inr (Finite 100)"
  proof
    assume h: "contract \<noteq> {} \<and> contract \<subseteq> rust"
    then have "contract \<inter> rust = contract"
      by blast
    then have "n = d"
      by (simp add: n_def d_def)
    moreover from h assms have "0 < d"
      by (simp add: d_def card_gt_0_iff)
    ultimately show "coverage contract rust = Inr (Finite 100)"
      using val h by (simp add: round_double_values)
  qed
  have f: "contract \<noteq> {} \<and> contract \<inter> rust = {} \<longrightarrow> coverage contract rust = Inr (Finite 0)"
  proof
    assume h: "contract \<noteq> {} \<and> contract \<inter> rust = {}"
    then have "n = 0"
      by (simp add: n_def)
    then show "coverage contract rust = Inr (Finite 0)"
      using val h by (simp add: round_double_def)
  qed
  from a b c e f show ?thesis
    by blast
qed

theorem coverage_percent_witness:
  "finite {Endpoint ''GET'' ''/a'', Endpoint ''POST'' ''/b''}
   \<and> card {Endpoint ''GET'' ''/a'', Endpoint ''POST'' ''/b''} < 2 ^ 63
   \<and> coverage {Endpoint ''GET'' ''/a'', Endpoint ''POST'' ''/b''}
        {Endpoint ''GET'' ''/a'', Endpoint ''GET'' ''/c''} = Inr (Finite 50)
   \<and> coverage {Endpoint ''GET'' ''/a'', Endpoint ''POST'' ''/b''}
        {Endpoint ''GET'' ''/a'', Endpoint ''POST'' ''/b'', Endpoint ''GET'' ''/c''} = Inr (Finite 100)
   \<and> coverage {Endpoint ''GET'' ''/a'', Endpoint ''POST'' ''/b''} {Endpoint ''GET'' ''/c''}
        = Inr (Finite 0)
   \<and> coverage {} {Endpoint ''GET'' ''/a''} = Inr (Finite 100)"
proof -
  let ?c = "{Endpoint ''GET'' ''/a'', Endpoint ''POST'' ''/b''}"
  have f: "finite ?c"
    by simp
  have c: "card ?c = 2"
    by simp
  have i: "?c \<inter> {Endpoint ''GET'' ''/a'', Endpoint ''GET'' ''/c''} = {Endpoint ''GET'' ''/a''}"
    by auto
  have s: "?c \<subseteq> {Endpoint ''GET'' ''/a'', Endpoint ''POST'' ''/b'', Endpoint ''GET'' ''/c''}"
    by auto
  have z: "?c \<inter> {Endpoint ''GET'' ''/c''} = {}"
    by auto
  have n: "?c \<noteq> {}"
    by simp
  from coverage_percent[OF f, of "{Endpoint ''GET'' ''/a'', Endpoint ''GET'' ''/c''}"] n
  have "coverage ?c {Endpoint ''GET'' ''/a'', Endpoint ''GET'' ''/c''} = Inr (Finite 50)"
    by (simp add: i c round_double_values)
  moreover
  from coverage_percent[OF f, of "{Endpoint ''GET'' ''/a'', Endpoint ''POST'' ''/b'', Endpoint ''GET'' ''/c''}"] n s
  have "coverage ?c {Endpoint ''GET'' ''/a'', Endpoint ''POST'' ''/b'', Endpoint ''GET'' ''/c''}
      = Inr (Finite 100)"
    by blast
  moreover
  from coverage_percent[OF f, of "{Endpoint ''GET'' ''/c''}"] n z
  have "coverage ?c {Endpoint ''GET'' ''/c''} = Inr (Finite 0)"
    by blast
  moreover
  from coverage_percent[of "{}" "{Endpoint ''GET'' ''/a''}"]
  have "coverage {} {Endpoint ''GET'' ''/a''} = Inr (Finite 100)"
    by simp
  ultimately show ?thesis
    using f c by simp
qed

end
